theory Spec2Isabelle
  imports Complex_Main "HOL-Library.Sublist"
begin

section \<open>Python string operations used by the interruption filter\<close>

text \<open>
  A transcript is a Python \<open>str\<close>; it is modelled as a \<open>string\<close> whose characters are
  read as the code points U+0000 .. U+00FF. On this range \<open>str.lower\<close> acts on each
  character separately, and \<open>str.isspace\<close> holds for exactly the twelve characters
  listed in \<open>py_isspace\<close>.
  Text with code points above U+00FF is the subject of a later section.
\<close>

definition py_isspace :: "char \<Rightarrow> bool" where
  "py_isspace c =
     (c \<in> {CHR 0x09, CHR 0x0A, CHR 0x0B, CHR 0x0C, CHR 0x0D,
           CHR 0x1C, CHR 0x1D, CHR 0x1E, CHR 0x1F, CHR 0x20, CHR 0x85, CHR 0xA0})"

definition char_lower :: "char \<Rightarrow> char" where
  \<comment> \<open>\<open>A\<close>..\<open>Z\<close> and the Latin-1 capitals U+00C0..U+00DE (without the sign U+00D7)
      have their small letter 32 code points later; every other character is kept.\<close>
  "char_lower c =
     (let n = (of_char c :: nat)
      in if (65 \<le> n \<and> n \<le> 90) \<or> (192 \<le> n \<and> n \<le> 222 \<and> n \<noteq> 215)
         then char_of (n + 32) else c)"

definition py_lower :: "string \<Rightarrow> string" where
  \<comment> \<open>\<open>s.lower()\<close>\<close>
  "py_lower s = map char_lower s"

definition py_lstrip :: "string \<Rightarrow> string" where
  "py_lstrip s = dropWhile py_isspace s"

definition py_rstrip :: "string \<Rightarrow> string" where
  "py_rstrip s = rev (dropWhile py_isspace (rev s))"

definition py_strip :: "string \<Rightarrow> string" where
  \<comment> \<open>\<open>s.strip()\<close>: leading and trailing whitespace removed\<close>
  "py_strip s = py_rstrip (py_lstrip s)"

definition py_replace :: "char \<Rightarrow> string \<Rightarrow> string \<Rightarrow> string" where
  \<comment> \<open>\<open>s.replace(old, new)\<close> for a one-character \<open>old\<close>: every occurrence is replaced\<close>
  "py_replace old new s = concat (map (\<lambda>c. if c = old then new else [c]) s)"

function py_split :: "string \<Rightarrow> string list" where
  \<comment> \<open>\<open>s.split()\<close>: the maximal runs of non-whitespace characters, in order\<close>
  "py_split s =
     (let r = dropWhile py_isspace s
      in if r = [] then []
         else takeWhile (\<lambda>c. \<not> py_isspace c) r # py_split (dropWhile (\<lambda>c. \<not> py_isspace c) r))"
  by pat_completeness auto
termination
proof (relation "measure length")
  show "wf (measure length)" by simp
next
  fix s r :: string
  assume r: "r = dropWhile py_isspace s" and ne: "r \<noteq> []"
  from ne obtain c cs where rc: "r = c # cs" by (cases r) auto
  have "dropWhile py_isspace s \<noteq> []"
    using r ne by simp
  then have "\<not> py_isspace (hd (dropWhile py_isspace s))"
    by (rule hd_dropWhile)
  then have "\<not> py_isspace c"
    unfolding r [symmetric] rc by simp
  then have "length (dropWhile (\<lambda>c. \<not> py_isspace c) r) \<le> length cs"
    by (simp add: rc length_dropWhile_le)
  moreover have "length r \<le> length s"
    by (simp add: r length_dropWhile_le)
  ultimately show "(dropWhile (\<lambda>c. \<not> py_isspace c) r, s) \<in> measure length"
    by (simp add: rc)
qed

declare py_split.simps [simp del]

fun py_in :: "string \<Rightarrow> string \<Rightarrow> bool" where
  \<comment> \<open>\<open>sub in s\<close>: \<open>sub\<close> occurs in \<open>s\<close> as a contiguous run\<close>
  "py_in sub [] = (sub = [])"
| "py_in sub (c # cs) = (prefix sub (c # cs) \<or> py_in sub cs)"

section \<open>interrupt\_config.py\<close>

definition BACKCHANNEL_WORDS :: "string set" where
  \<comment> \<open>Words that should NOT interrupt when agent is speaking\<close>
  "BACKCHANNEL_WORDS =
     {''yeah'', ''ok'', ''okay'', ''hmm'', ''right'', ''uh-huh'',
      ''aha'', ''mhm'', ''gotcha'', ''understood'', ''yep'',
      ''sure'', ''alright'', ''yup'', ''uh'', ''mhmm''}"

definition COMMAND_WORDS :: "string set" where
  \<comment> \<open>Words that ALWAYS cause interruption\<close>
  "COMMAND_WORDS =
     {''wait'', ''stop'', ''no'', ''hold'', ''but'',
      ''however'', ''actually'', ''listen'', ''hang''}"

definition text_lower :: "string \<Rightarrow> string" where
  \<comment> \<open>\<open>text_lower = text.lower().strip()\<close>\<close>
  "text_lower text = py_strip (py_lower text)"

definition words :: "string \<Rightarrow> string list" where
  \<comment> \<open>\<open>words = text_lower.replace(',', '').replace('.', '').replace('!', '').replace('?', '').split()\<close>\<close>
  "words text =
     py_split (py_replace (CHR ''?'') [] (py_replace (CHR ''!'') []
       (py_replace (CHR ''.'') [] (py_replace (CHR '','') [] (text_lower text)))))"

definition is_backchannel_only :: "string \<Rightarrow> bool" where
  \<comment> \<open>The value returned; the two debug lines written to stderr are in
      \<open>is_backchannel_only_run\<close> below.\<close>
  "is_backchannel_only text =
     (if text = [] then False
      else if \<exists>cmd\<in>COMMAND_WORDS. py_in cmd (text_lower text) then False
      else if length (words text) = 0 then False
      else list_all (\<lambda>word. word \<in> BACKCHANNEL_WORDS) (words text))"

subsection \<open>The call with its effects\<close>

text \<open>
  The function reads the two module-level sets, which Python lets any importer mutate, and
  prints two debug lines to stderr. Both are part of the state here. A debug line is kept
  as the values formatted into it, not as the formatted text.
\<close>

datatype debug_line =
    DebugCalled string
  | DebugWords "string list" bool

record module_state =
  g_BACKCHANNEL_WORDS :: "string set"
  g_COMMAND_WORDS :: "string set"
  stderr :: "debug_line list"

definition module_loaded :: module_state where
  \<comment> \<open>the module right after import\<close>
  "module_loaded =
     \<lparr>g_BACKCHANNEL_WORDS = BACKCHANNEL_WORDS, g_COMMAND_WORDS = COMMAND_WORDS, stderr = []\<rparr>"

definition is_backchannel_only_run :: "string \<Rightarrow> module_state \<Rightarrow> bool \<times> module_state" where
  "is_backchannel_only_run text m =
     (let m1 = m\<lparr>stderr := stderr m @ [DebugCalled text]\<rparr>
      in if text = [] then (False, m1)
         else if \<exists>cmd\<in>g_COMMAND_WORDS m1. py_in cmd (text_lower text) then (False, m1)
         else if length (words text) = 0 then (False, m1)
         else let result = list_all (\<lambda>word. word \<in> g_BACKCHANNEL_WORDS m1) (words text)
              in (result, m1\<lparr>stderr := stderr m1 @ [DebugWords (words text) result]\<rparr>))"

section \<open>interrupt\_config.py on text beyond U+00FF\<close>

text \<open>
  A Python \<open>str\<close> holds any Unicode code point. For a text with code points above U+00FF
  the function is written out a second time, on lists of code points. \<open>cp_isspace\<close> is the
  whole of \<open>str.isspace\<close>. Of the case tables behind \<open>str.lower\<close> and \<open>str.upper\<close> only a
  part is reproduced: \<open>lower\<close> for the code points below U+0100, \<open>upper\<close> for those below
  U+0080, and both for U+017F, the long s, which is a small letter whose capital is \<open>S\<close>.
  A text with a code point outside the reproduced part has the value \<open>None\<close>.
\<close>

type_synonym ustr = "nat list"

definition codes :: "string \<Rightarrow> ustr" where
  \<comment> \<open>the code points of a \<open>string\<close>, a text up to U+00FF\<close>
  "codes s = map of_char s"

definition cp_isspace :: "nat \<Rightarrow> bool" where
  "cp_isspace n =
     (n \<in> {0x09, 0x0A, 0x0B, 0x0C, 0x0D, 0x1C, 0x1D, 0x1E, 0x1F, 0x20, 0x85, 0xA0, 0x1680}
      \<or> (0x2000 \<le> n \<and> n \<le> 0x200A)
      \<or> n \<in> {0x2028, 0x2029, 0x202F, 0x205F, 0x3000})"

definition cp_lower :: "nat \<Rightarrow> ustr option" where
  "cp_lower n =
     (if (65 \<le> n \<and> n \<le> 90) \<or> (192 \<le> n \<and> n \<le> 222 \<and> n \<noteq> 215) then Some [n + 32]
      else if n < 0x100 \<or> n = 0x17F then Some [n]
      else None)"

definition cp_upper :: "nat \<Rightarrow> ustr option" where
  "cp_upper n =
     (if 97 \<le> n \<and> n \<le> 122 then Some [n - 32]
      else if n < 0x80 then Some [n]
      else if n = 0x17F then Some [0x53]
      else None)"

fun u_case_map :: "(nat \<Rightarrow> ustr option) \<Rightarrow> ustr \<Rightarrow> ustr option" where
  \<comment> \<open>a case table applied to each code point of a text, the results joined\<close>
  "u_case_map f [] = Some []"
| "u_case_map f (n # ns) =
     (case f n of
        None \<Rightarrow> None
      | Some xs \<Rightarrow> (case u_case_map f ns of None \<Rightarrow> None | Some ys \<Rightarrow> Some (xs @ ys)))"

definition u_lower :: "ustr \<Rightarrow> ustr option" where
  "u_lower s = u_case_map cp_lower s"

definition u_upper :: "ustr \<Rightarrow> ustr option" where
  "u_upper s = u_case_map cp_upper s"

definition u_strip :: "ustr \<Rightarrow> ustr" where
  "u_strip s = rev (dropWhile cp_isspace (rev (dropWhile cp_isspace s)))"

definition u_replace :: "nat \<Rightarrow> ustr \<Rightarrow> ustr \<Rightarrow> ustr" where
  "u_replace old new s = concat (map (\<lambda>c. if c = old then new else [c]) s)"

function u_split :: "ustr \<Rightarrow> ustr list" where
  "u_split s =
     (let r = dropWhile cp_isspace s
      in if r = [] then []
         else takeWhile (\<lambda>c. \<not> cp_isspace c) r # u_split (dropWhile (\<lambda>c. \<not> cp_isspace c) r))"
  by pat_completeness auto
termination
proof (relation "measure length")
  show "wf (measure length)" by simp
next
  fix s r :: ustr
  assume r: "r = dropWhile cp_isspace s" and ne: "r \<noteq> []"
  from ne obtain c cs where rc: "r = c # cs" by (cases r) auto
  have "dropWhile cp_isspace s \<noteq> []"
    using r ne by simp
  then have "\<not> cp_isspace (hd (dropWhile cp_isspace s))"
    by (rule hd_dropWhile)
  then have "\<not> cp_isspace c"
    unfolding r [symmetric] rc by simp
  then have "length (dropWhile (\<lambda>c. \<not> cp_isspace c) r) \<le> length cs"
    by (simp add: rc length_dropWhile_le)
  moreover have "length r \<le> length s"
    by (simp add: r length_dropWhile_le)
  ultimately show "(dropWhile (\<lambda>c. \<not> cp_isspace c) r, s) \<in> measure length"
    by (simp add: rc)
qed

declare u_split.simps [simp del]

fun u_in :: "ustr \<Rightarrow> ustr \<Rightarrow> bool" where
  "u_in sub [] = (sub = [])"
| "u_in sub (c # cs) = (prefix sub (c # cs) \<or> u_in sub cs)"

definition u_words :: "ustr \<Rightarrow> ustr list" where
  \<comment> \<open>\<open>words\<close>, from the lowercased and stripped text\<close>
  "u_words low =
     u_split (u_replace (of_char (CHR ''?'')) [] (u_replace (of_char (CHR ''!'')) []
       (u_replace (of_char (CHR ''.'')) [] (u_replace (of_char (CHR '','')) [] low))))"

definition u_is_backchannel_only :: "ustr \<Rightarrow> bool option" where
  "u_is_backchannel_only text =
     (if text = [] then Some False
      else case u_lower text of
        None \<Rightarrow> None
      | Some lowered \<Rightarrow>
          (let low = u_strip lowered
           in if \<exists>cmd\<in>COMMAND_WORDS. u_in (codes cmd) low then Some False
              else if length (u_words low) = 0 then Some False
              else Some (list_all (\<lambda>word. word \<in> codes ` BACKCHANNEL_WORDS) (u_words low))))"

definition is_capital :: "nat \<Rightarrow> bool" where
  \<comment> \<open>\<open>A\<close>..\<open>Z\<close> and the capitals U+00C0..U+00DE: the code points \<open>cp_lower\<close> changes\<close>
  "is_capital n = ((65 \<le> n \<and> n \<le> 90) \<or> (192 \<le> n \<and> n \<le> 222 \<and> n \<noteq> 215))"

definition case_pair :: "nat \<Rightarrow> nat \<Rightarrow> bool" where
  \<comment> \<open>the same code point, or one of these capitals and its small letter\<close>
  "case_pair a b = (a = b \<or> (is_capital a \<and> b = a + 32) \<or> (is_capital b \<and> a = b + 32))"

section \<open>basic\_agent.py\<close>

text \<open>
  The keyword arguments \<open>entrypoint\<close> passes to \<open>AgentSession\<close>; the turn detector and the
  voice-activity detector are objects of other packages and are left out. The timeout is
  the float \<open>1.0\<close>, a number of seconds.
\<close>

record AgentSession_options =
  stt :: string
  llm :: string
  tts :: string
  preemptive_generation :: bool
  resume_false_interruption :: bool
  false_interruption_timeout :: rat

definition entrypoint_session :: AgentSession_options where
  "entrypoint_session =
     \<lparr>stt = ''deepgram/nova-3'',
      llm = ''openai/gpt-4o-mini'',
      tts = ''cartesia/sonic-2:9626c31c-bec5-4cca-baa8-f8ba9e84c8bc'',
      preemptive_generation = True,
      resume_false_interruption = True,
      false_interruption_timeout = 1\<rparr>"

section \<open>The interruption arbiter of the specification\<close>

text \<open>
  The session code that calls \<open>is_backchannel_only\<close> and resumes after a false interruption
  is not among the source files. The definitions of this section follow the specification
  (sections 3, 4.3, 4.4, 6 and 7) instead. An utterance is classified by the source's own
  \<open>is_backchannel_only\<close>; the specification's verdict \<open>Empty\<close> is a text without tokens.
\<close>

datatype ArbiterState = Idle | AgentSpeaking | Interrupted | PendingResume

record Utterance =
  utterance_text :: string
  isFinal :: bool
  timestamp :: rat

record ResumeTimer =
  deadline :: rat
  generation :: nat

record Config =
  backchannelSet :: "string set"
  commandSet :: "string set"
  resumeTimeout :: rat

datatype Event =
    started
  | finishedNormally
  | revisedToNonActionable
  | sessionTeardown
  | newTurnStart
  | utterance Utterance
  | timerFired nat

datatype Command = interrupt | resume | suppressed Utterance

record Arbiter =
  arb_state :: ArbiterState
  timer :: "ResumeTimer option"
  last_generation :: nat

definition session_config :: "AgentSession_options \<Rightarrow> Config" where
  \<comment> \<open>Modelled from the spec: the configuration of section 6, with the word sets of
      interrupt\_config.py and the timeout the session was created with.\<close>
  "session_config opts =
     \<lparr>backchannelSet = BACKCHANNEL_WORDS, commandSet = COMMAND_WORDS,
      resumeTimeout = false_interruption_timeout opts\<rparr>"

fun arbiter_step :: "Config \<Rightarrow> rat \<Rightarrow> Arbiter \<Rightarrow> Event \<Rightarrow> Arbiter \<times> Command list" where
  \<comment> \<open>Modelled from the spec: the transitions of section 4.3 (the session's arbiter is not
      in the source files). \<open>now\<close> is the instant of the event; an event no transition is
      listed for changes nothing.\<close>
  "arbiter_step cfg now a started =
     (if arb_state a = Idle then (a\<lparr>arb_state := AgentSpeaking\<rparr>, []) else (a, []))"
| "arbiter_step cfg now a finishedNormally =
     (if arb_state a = AgentSpeaking then (a\<lparr>arb_state := Idle\<rparr>, []) else (a, []))"
| "arbiter_step cfg now a (utterance u) =
     (if words (utterance_text u) = [] then (a, [])
      else if arb_state a = AgentSpeaking then
        (if is_backchannel_only (utterance_text u) then (a, [suppressed u])
         else (a\<lparr>arb_state := Interrupted\<rparr>, [interrupt]))
      else if arb_state a = PendingResume then
        (a\<lparr>arb_state := Interrupted, timer := None\<rparr>, [])
      else (a, []))"
| "arbiter_step cfg now a revisedToNonActionable =
     (if arb_state a = Interrupted then
        (a\<lparr>arb_state := PendingResume,
           timer := Some \<lparr>deadline = now + resumeTimeout cfg, generation = Suc (last_generation a)\<rparr>,
           last_generation := Suc (last_generation a)\<rparr>, [])
      else (a, []))"
| "arbiter_step cfg now a (timerFired g) =
     (if arb_state a = PendingResume \<and> timer a \<noteq> None \<and> g = last_generation a then
        (a\<lparr>arb_state := AgentSpeaking, timer := None\<rparr>, [resume])
      else (a, []))"
| "arbiter_step cfg now a sessionTeardown = (a\<lparr>arb_state := Idle, timer := None\<rparr>, [])"
| "arbiter_step cfg now a newTurnStart =
     (if arb_state a = Interrupted \<or> arb_state a = PendingResume then
        (a\<lparr>arb_state := Idle, timer := None\<rparr>, [])
      else (a, []))"

definition fire_if_due :: "Config \<Rightarrow> rat \<Rightarrow> bool \<Rightarrow> Arbiter \<Rightarrow> Arbiter \<times> Command list" where
  \<comment> \<open>Modelled from the spec: the resume timer of section 4.4 fires at its deadline, with
      its generation. Before an event at instant \<open>t\<close> only a deadline earlier than \<open>t\<close> has
      fired (an utterance of the same instant goes first); at the end of the observed time
      a deadline up to that instant has.\<close>
  "fire_if_due cfg t inclusive a =
     (case timer a of
        None \<Rightarrow> (a, [])
      | Some tm \<Rightarrow>
          if deadline tm < t \<or> (inclusive \<and> deadline tm = t)
          then arbiter_step cfg (deadline tm) a (timerFired (generation tm))
          else (a, []))"

fun arbiter_run :: "Config \<Rightarrow> Arbiter \<Rightarrow> (rat \<times> Event) list \<Rightarrow> rat \<Rightarrow> Arbiter \<times> Command list" where
  \<comment> \<open>Modelled from the spec: the arbiter fed the session's events, each with its instant,
      and observed until \<open>horizon\<close>; the commands issued are collected in order.\<close>
  "arbiter_run cfg a [] horizon = fire_if_due cfg horizon True a"
| "arbiter_run cfg a ((t, ev) # evs) horizon =
     (let (a1, c1) = fire_if_due cfg t False a;
          (a2, c2) = arbiter_step cfg t a1 ev;
          (a3, c3) = arbiter_run cfg a2 evs horizon
      in (a3, c1 @ c2 @ c3))"

section \<open>Substrings, punctuation removal and splitting\<close>


lemma py_in_iff_sublist: "py_in sub s \<longleftrightarrow> sublist sub s"
  by (induction s) (simp_all add: sublist_Cons_right)

lemma py_replace_Nil: "py_replace old [] s = filter (\<lambda>c. c \<noteq> old) s"
  by (induction s) (simp_all add: py_replace_def)

lemma sublist_filter_keep:
  assumes "sublist c t" and "\<forall>x\<in>set c. P x"
  shows "sublist c (filter P t)"
proof -
  from assms(1) obtain ps ss where t: "t = ps @ c @ ss"
    by (auto simp: sublist_def)
  have "filter P c = c" using assms(2) by (simp add: filter_id_conv)
  then have "filter P t = filter P ps @ c @ filter P ss" by (simp add: t)
  then show ?thesis unfolding sublist_def by blast
qed

lemma sublist_skip_foreign:
  assumes "sublist c (a @ b)" and "c \<noteq> []" and "\<forall>x\<in>set a. x \<notin> set c"
  shows "sublist c b"
  using assms
proof (induction a)
  case Nil
  then show ?case by simp
next
  case (Cons x a)
  from Cons.prems(1) have "prefix c (x # a @ b) \<or> sublist c (a @ b)"
    by (simp add: sublist_Cons_right)
  moreover have "\<not> prefix c (x # a @ b)"
  proof
    assume "prefix c (x # a @ b)"
    with Cons.prems(2) obtain c' where "c = x # c'"
      by (cases c) (auto)
    with Cons.prems(3) show False by simp
  qed
  ultimately show ?case using Cons by simp
qed

lemma prefix_takeWhile_all:
  assumes "prefix c r" and "\<forall>x\<in>set c. Q x"
  shows "prefix c (takeWhile Q r)"
proof -
  from assms(1) obtain z where "r = c @ z" by (auto simp: prefix_def)
  with assms(2) have "takeWhile Q r = c @ takeWhile Q z"
    by (simp add: takeWhile_append2)
  then show ?thesis by simp
qed

lemma sublist_take_or_drop:
  assumes "sublist c r" and "c \<noteq> []" and "\<forall>x\<in>set c. Q x"
  shows "sublist c (takeWhile Q r) \<or> sublist c (dropWhile Q r)"
  using assms
proof (induction r)
  case Nil
  then show ?case by simp
next
  case (Cons x r)
  show ?case
  proof (cases "Q x")
    case False
    then show ?thesis using Cons.prems(1) by simp
  next
    case True
    from Cons.prems(1) consider "prefix c (x # r)" | "sublist c r"
      by (auto simp: sublist_Cons_right)
    then show ?thesis
    proof cases
      case 1
      then have "prefix c (takeWhile Q (x # r))"
        using Cons.prems(3) by (rule prefix_takeWhile_all)
      then show ?thesis by (blast intro: prefix_imp_sublist)
    next
      case 2
      then have "sublist c (takeWhile Q r) \<or> sublist c (dropWhile Q r)"
        using Cons by blast
      then show ?thesis using True by (auto simp: sublist_Cons_right)
    qed
  qed
qed

lemma sublist_in_some_token:
  assumes "sublist c u" and "c \<noteq> []" and "\<forall>x\<in>set c. \<not> py_isspace x"
  shows "\<exists>w\<in>set (py_split u). sublist c w"
  using assms
proof (induction u rule: py_split.induct)
  case (1 s)
  define r where "r = dropWhile py_isspace s"
  have whole: "sublist c (takeWhile py_isspace s @ r)"
    using "1.prems"(1) by (simp add: r_def)
  have lead: "\<forall>x\<in>set (takeWhile py_isspace s). x \<notin> set c"
    using "1.prems"(3) by (auto dest: set_takeWhileD)
  have cr: "sublist c r"
    by (rule sublist_skip_foreign [OF whole "1.prems"(2) lead])
  with "1.prems"(2) have ne: "r \<noteq> []" by auto
  have split: "py_split s =
      takeWhile (\<lambda>c. \<not> py_isspace c) r # py_split (dropWhile (\<lambda>c. \<not> py_isspace c) r)"
    using ne by (subst py_split.simps) (simp add: r_def Let_def)
  from cr "1.prems"(2,3)
  have "sublist c (takeWhile (\<lambda>c. \<not> py_isspace c) r) \<or>
        sublist c (dropWhile (\<lambda>c. \<not> py_isspace c) r)"
    by (rule sublist_take_or_drop)
  then show ?case
  proof
    assume "sublist c (takeWhile (\<lambda>c. \<not> py_isspace c) r)"
    then show ?thesis by (simp add: split)
  next
    assume d: "sublist c (dropWhile (\<lambda>c. \<not> py_isspace c) r)"
    have "\<exists>w\<in>set (py_split (dropWhile (\<lambda>c. \<not> py_isspace c) r)). sublist c w"
      using "1.IH" [OF r_def ne d "1.prems"(2,3)] .
    then show ?thesis by (auto simp: split)
  qed
qed

lemma py_split_blank: "dropWhile py_isspace s = [] \<Longrightarrow> py_split s = []"
  by (subst py_split.simps) (simp only: Let_def simp_thms if_True)

lemma py_split_step:
  "dropWhile py_isspace s \<noteq> [] \<Longrightarrow>
   py_split s = takeWhile (\<lambda>c. \<not> py_isspace c) (dropWhile py_isspace s)
                # py_split (dropWhile (\<lambda>c. \<not> py_isspace c) (dropWhile py_isspace s))"
  by (subst py_split.simps) (simp only: Let_def if_False)

lemma filter_nonspace_dropWhile:
  "filter (\<lambda>c. \<not> py_isspace c) (dropWhile py_isspace u) = filter (\<lambda>c. \<not> py_isspace c) u"
proof -
  have "filter (\<lambda>c. \<not> py_isspace c) (takeWhile py_isspace u) = []"
    by (auto simp: filter_empty_conv dest: set_takeWhileD)
  then have "filter (\<lambda>c. \<not> py_isspace c) (takeWhile py_isspace u @ dropWhile py_isspace u)
        = filter (\<lambda>c. \<not> py_isspace c) (dropWhile py_isspace u)"
    by (simp only: filter_append append_Nil)
  then show ?thesis by (simp only: takeWhile_dropWhile_id)
qed

lemma takeWhile_filter_dropWhile:
  "takeWhile Q r @ filter Q (dropWhile Q r) = filter Q r"
proof -
  have "filter Q (takeWhile Q r) = takeWhile Q r"
    by (auto simp: filter_id_conv dest: set_takeWhileD)
  then have "filter Q (takeWhile Q r @ dropWhile Q r) = takeWhile Q r @ filter Q (dropWhile Q r)"
    by (simp only: filter_append)
  then show ?thesis by (simp only: takeWhile_dropWhile_id)
qed

lemma concat_py_split: "concat (py_split u) = filter (\<lambda>c. \<not> py_isspace c) u"
proof (induction u rule: py_split.induct)
  case (1 s)
  show ?case
  proof (cases "dropWhile py_isspace s = []")
    case True
    have "filter (\<lambda>c. \<not> py_isspace c) (dropWhile py_isspace s) = []"
      by (simp only: True filter.simps)
    then have "filter (\<lambda>c. \<not> py_isspace c) s = []"
      by (simp only: filter_nonspace_dropWhile)
    then show ?thesis by (simp only: py_split_blank [OF True] concat.simps)
  next
    case False
    let ?Q = "\<lambda>c. \<not> py_isspace c"
    let ?r = "dropWhile py_isspace s"
    have "concat (py_split s) = takeWhile ?Q ?r @ concat (py_split (dropWhile ?Q ?r))"
      by (simp only: py_split_step [OF False] concat.simps)
    also have "concat (py_split (dropWhile ?Q ?r)) = filter ?Q (dropWhile ?Q ?r)"
      using "1.IH" [OF refl False] .
    also have "takeWhile ?Q ?r @ filter ?Q (dropWhile ?Q ?r) = filter ?Q ?r"
      by (rule takeWhile_filter_dropWhile)
    also have "\<dots> = filter ?Q s" by (rule filter_nonspace_dropWhile)
    finally show ?thesis .
  qed
qed

lemma py_split_tokens: "w \<in> set (py_split u) \<Longrightarrow> w \<noteq> [] \<and> (\<forall>c\<in>set w. \<not> py_isspace c)"
proof (induction u rule: py_split.induct)
  case (1 s)
  show ?case
  proof (cases "dropWhile py_isspace s = []")
    case True
    with "1.prems" show ?thesis by (simp only: py_split_blank [OF True] list.set empty_iff)
  next
    case False
    let ?Q = "\<lambda>c. \<not> py_isspace c"
    let ?r = "dropWhile py_isspace s"
    from "1.prems" have mem: "w = takeWhile ?Q ?r \<or> w \<in> set (py_split (dropWhile ?Q ?r))"
      by (simp only: py_split_step [OF False] set_ConsD list.set insert_iff)
    from False have "?Q (hd ?r)" by (rule hd_dropWhile)
    with False have ne: "takeWhile ?Q ?r \<noteq> []" by (cases ?r) auto
    have ns: "\<forall>c\<in>set (takeWhile ?Q ?r). \<not> py_isspace c"
      by (auto dest: set_takeWhileD)
    from mem show ?thesis
    proof
      assume w: "w = takeWhile ?Q ?r"
      show ?thesis unfolding w using ne ns by (rule conjI)
    next
      assume "w \<in> set (py_split (dropWhile ?Q ?r))"
      then show ?thesis by (rule "1.IH" [OF refl False])
    qed
  qed
qed

lemma filter_nonspace_strip:
  "filter (\<lambda>c. \<not> py_isspace c) (py_strip s) = filter (\<lambda>c. \<not> py_isspace c) s"
proof -
  have "filter (\<lambda>c. \<not> py_isspace c) (py_strip s)
        = rev (filter (\<lambda>c. \<not> py_isspace c) (dropWhile py_isspace (rev (dropWhile py_isspace s))))"
    by (simp only: py_strip_def py_rstrip_def py_lstrip_def rev_filter)
  also have "\<dots> = rev (filter (\<lambda>c. \<not> py_isspace c) (rev (dropWhile py_isspace s)))"
    by (simp only: filter_nonspace_dropWhile)
  also have "\<dots> = filter (\<lambda>c. \<not> py_isspace c) (dropWhile py_isspace s)"
    by (simp only: rev_filter [symmetric] rev_rev_ident)
  finally show ?thesis by (simp only: filter_nonspace_dropWhile)
qed

lemma space_char_lower: "py_isspace c \<Longrightarrow> char_lower c = c"
  unfolding py_isspace_def by (auto simp: char_lower_def)

lemma blank_text_lower: "list_all py_isspace text \<Longrightarrow> text_lower text = []"
proof -
  assume "list_all py_isspace text"
  then have "\<forall>c\<in>set (py_lower text). py_isspace c"
    by (auto simp: list_all_iff py_lower_def space_char_lower)
  then have d: "dropWhile py_isspace (py_lower text) = []" by simp
  show ?thesis unfolding text_lower_def py_strip_def py_lstrip_def py_rstrip_def d by simp
qed

section \<open>The word sets\<close>

lemma command_word_shape:
  "cmd \<in> COMMAND_WORDS \<Longrightarrow>
     cmd \<noteq> [] \<and> (\<forall>x\<in>set cmd. \<not> py_isspace x \<and> x \<noteq> CHR '','' \<and> x \<noteq> CHR ''.'' \<and> x \<noteq> CHR ''!'' \<and> x \<noteq> CHR ''?'')"
  by (auto simp: COMMAND_WORDS_def py_isspace_def)

lemma no_command_inside_backchannel:
  "w \<in> BACKCHANNEL_WORDS \<Longrightarrow> cmd \<in> COMMAND_WORDS \<Longrightarrow> \<not> py_in cmd w"
  by (auto simp: BACKCHANNEL_WORDS_def COMMAND_WORDS_def)


section \<open>The classifier\<close>

lemma words_Nil: "words [] = []"
  by (simp add: words_def text_lower_def py_lower_def py_strip_def py_lstrip_def py_rstrip_def
      py_replace_def py_split.simps)

lemma words_as_filter:
  "words text =
     py_split (filter (\<lambda>c. c \<noteq> CHR '','' \<and> c \<noteq> CHR ''.'' \<and> c \<noteq> CHR ''!'' \<and> c \<noteq> CHR ''?'')
       (text_lower text))"
  by (simp add: words_def py_replace_Nil conj_commute conj_left_commute)

lemma command_inside_some_word:
  assumes cmd: "cmd \<in> COMMAND_WORDS" and occ: "py_in cmd (text_lower text)"
  shows "\<exists>w\<in>set (words text). py_in cmd w"
proof -
  let ?keep = "\<lambda>c. c \<noteq> CHR '','' \<and> c \<noteq> CHR ''.'' \<and> c \<noteq> CHR ''!'' \<and> c \<noteq> CHR ''?''"
  from command_word_shape [OF cmd]
  have ne: "cmd \<noteq> []" and nosp: "\<forall>x\<in>set cmd. \<not> py_isspace x" and keep: "\<forall>x\<in>set cmd. ?keep x"
    by auto
  from occ have "sublist cmd (text_lower text)" by (simp add: py_in_iff_sublist)
  then have "sublist cmd (filter ?keep (text_lower text))"
    using keep by (rule sublist_filter_keep)
  then have "\<exists>w\<in>set (py_split (filter ?keep (text_lower text))). sublist cmd w"
    using ne nosp by (rule sublist_in_some_token)
  then show ?thesis by (simp add: words_as_filter py_in_iff_sublist)
qed

lemma sets_disjoint: "w \<in> COMMAND_WORDS \<Longrightarrow> w \<notin> BACKCHANNEL_WORDS"
  by (auto simp: BACKCHANNEL_WORDS_def COMMAND_WORDS_def)

text \<open>
  Claim C1. For every text whose tokens (the list \<open>words\<close> the function computes: the
  lowercased, stripped text without the four punctuation marks, split at whitespace) are
  at least one and all members of \<open>BACKCHANNEL_WORDS\<close>, \<open>is_backchannel_only\<close> returns
  True. The command loop cannot fire on such a text: a command word has neither
  whitespace nor punctuation, so an occurrence in the text lies inside one token, and no
  backchannel word contains a command word.
\<close>

theorem all_backchannel_tokens_give_True:
  assumes "words text \<noteq> []" and "set (words text) \<subseteq> BACKCHANNEL_WORDS"
  shows "is_backchannel_only text"
proof -
  from assms(1) have "text \<noteq> []" using words_Nil by auto
  moreover have "\<not> (\<exists>cmd\<in>COMMAND_WORDS. py_in cmd (text_lower text))"
  proof
    assume "\<exists>cmd\<in>COMMAND_WORDS. py_in cmd (text_lower text)"
    then obtain cmd where cmd: "cmd \<in> COMMAND_WORDS" and "py_in cmd (text_lower text)" by blast
    then obtain w where "w \<in> set (words text)" and "py_in cmd w"
      using command_inside_some_word by blast
    with assms(2) cmd show False
      using no_command_inside_backchannel by blast
  qed
  ultimately show ?thesis
    using assms by (simp add: is_backchannel_only_def list_all_iff subset_iff)
qed

theorem all_backchannel_tokens_give_True_witness:
  "words ''Yeah, OK!  mhm.'' \<noteq> [] \<and> set (words ''Yeah, OK!  mhm.'') \<subseteq> BACKCHANNEL_WORDS
   \<and> is_backchannel_only ''Yeah, OK!  mhm.''"
proof -
  have w: "words ''Yeah, OK!  mhm.'' = [''yeah'', ''ok'', ''mhm'']" by code_simp
  have a: "words ''Yeah, OK!  mhm.'' \<noteq> []" by (simp add: w)
  have b: "set (words ''Yeah, OK!  mhm.'') \<subseteq> BACKCHANNEL_WORDS"
    by (simp add: w BACKCHANNEL_WORDS_def)
  from all_backchannel_tokens_give_True [OF a b] a b show ?thesis by simp
qed

text \<open>
  Claim C2. For every text with at least one token in \<open>COMMAND_WORDS\<close>,
  \<open>is_backchannel_only\<close> returns False, whatever the other tokens are.
\<close>

theorem command_token_gives_False:
  assumes "w \<in> set (words text)" and "w \<in> COMMAND_WORDS"
  shows "\<not> is_backchannel_only text"
proof
  assume "is_backchannel_only text"
  then have "list_all (\<lambda>word. word \<in> BACKCHANNEL_WORDS) (words text)"
    by (simp add: is_backchannel_only_def split: if_splits)
  with assms(1) have "w \<in> BACKCHANNEL_WORDS" by (simp add: list_all_iff)
  with assms(2) show False using sets_disjoint by blast
qed

theorem command_token_gives_False_witness:
  "''stop'' \<in> set (words ''yeah ok yeah st.op okay'') \<and> ''stop'' \<in> COMMAND_WORDS
   \<and> \<not> is_backchannel_only ''yeah ok yeah st.op okay''"
proof -
  have a: "''stop'' \<in> set (words ''yeah ok yeah st.op okay'')" by code_simp
  have b: "''stop'' \<in> COMMAND_WORDS" by (simp add: COMMAND_WORDS_def)
  from command_token_gives_False [OF a b] a b show ?thesis by simp
qed

text \<open>
  Claim C3. \<open>is_backchannel_only\<close> returns True only when the token list is non-empty and
  every token is a backchannel word; a text without tokens and a text with a token
  outside \<open>BACKCHANNEL_WORDS\<close> get False.
\<close>

theorem True_only_for_unanimous_backchannel:
  assumes "is_backchannel_only text"
  shows "words text \<noteq> [] \<and> set (words text) \<subseteq> BACKCHANNEL_WORDS"
  using assms by (auto simp: is_backchannel_only_def list_all_iff split: if_splits)

theorem True_only_for_unanimous_backchannel_witness:
  "is_backchannel_only ''uh-huh, right'' \<and> words ''uh-huh, right'' \<noteq> []
   \<and> set (words ''uh-huh, right'') \<subseteq> BACKCHANNEL_WORDS"
proof -
  have a: "is_backchannel_only ''uh-huh, right''" by code_simp
  from True_only_for_unanimous_backchannel [OF a] a show ?thesis by simp
qed

text \<open>
  Claim C10. Command detection is a substring test on the lowercased, stripped text,
  made before the punctuation is removed: if a command word occurs in it as a contiguous
  run, also inside a longer word, \<open>is_backchannel_only\<close> returns False.
\<close>

theorem command_substring_gives_False:
  assumes "cmd \<in> COMMAND_WORDS" and "sublist cmd (text_lower text)"
  shows "\<not> is_backchannel_only text"
  using assms by (auto simp: is_backchannel_only_def py_in_iff_sublist)

theorem command_substring_gives_False_witness:
  "''no'' \<in> COMMAND_WORDS \<and> sublist ''no'' (text_lower ''Nothing'')
   \<and> \<not> is_backchannel_only ''Nothing''"
proof -
  have a: "''no'' \<in> COMMAND_WORDS" by (simp add: COMMAND_WORDS_def)
  have "py_in ''no'' (text_lower ''Nothing'')" by code_simp
  then have b: "sublist ''no'' (text_lower ''Nothing'')" by (simp add: py_in_iff_sublist)
  from command_substring_gives_False [OF a b] a b show ?thesis by simp
qed

text \<open>
  Claim C4, as stated, wants empty text classified with a verdict of its own, distinct
  from the interrupting ones. The function has two results only: on the empty text it
  returns False, the value it also returns for a command (\<open>stop\<close>) and for mixed
  content.
\<close>

theorem empty_text_not_distinct_counterexample:
  "is_backchannel_only '''' = False \<and> is_backchannel_only ''stop'' = False
   \<and> is_backchannel_only ''sure thats great'' = False"
  by code_simp

text \<open>
  Claim C4, amended. Empty or whitespace-only text has an empty token list, and
  \<open>is_backchannel_only\<close> returns False for it, as it does for command and mixed content;
  the function has no separate verdict for empty text.
\<close>

theorem blank_text_no_tokens_False:
  assumes "list_all py_isspace text"
  shows "words text = [] \<and> is_backchannel_only text = False"
proof -
  from assms have "text_lower text = []" by (rule blank_text_lower)
  then have "words text = []"
    by (simp add: words_def py_replace_def py_split.simps)
  then show ?thesis by (simp add: is_backchannel_only_def)
qed

theorem blank_text_no_tokens_False_witness:
  "list_all py_isspace [CHR 0x20, CHR 0x09, CHR 0x0A] \<and> words [CHR 0x20, CHR 0x09, CHR 0x0A] = []
   \<and> is_backchannel_only [CHR 0x20, CHR 0x09, CHR 0x0A] = False"
proof -
  have a: "list_all py_isspace [CHR 0x20, CHR 0x09, CHR 0x0A]" by (simp add: py_isspace_def)
  from blank_text_no_tokens_False [OF a] a show ?thesis by simp
qed

text \<open>
  Claim C5, as stated, has \<open>don't\<close> collapse to the token \<open>dont\<close>. The apostrophe is not
  one of the four characters the function removes, so the token keeps it.
\<close>

theorem apostrophe_kept_counterexample:
  "words (''don'' @ [CHR 0x27] @ ''t'') \<noteq> [''dont'']"
  by code_simp

text \<open>
  Claim C5, amended. The token list is the lowercased, stripped text with exactly the
  characters comma, period, exclamation mark and question mark deleted, split at
  whitespace: joined together, the tokens are the lowercased text without whitespace and
  without these four characters, every other character kept in its place; no token is
  empty or contains whitespace. A mark inside a word joins its two sides (\<open>O.K\<close> gives
  \<open>ok\<close>), and \<open>Don't\<close> stays the one token \<open>don't\<close>.
\<close>

theorem normalizer_removes_four_marks:
  "words text =
     py_split (filter (\<lambda>c. c \<notin> {CHR '','', CHR ''.'', CHR ''!'', CHR ''?''}) (py_strip (py_lower text)))
   \<and> concat (words text) =
       filter (\<lambda>c. \<not> py_isspace c \<and> c \<notin> {CHR '','', CHR ''.'', CHR ''!'', CHR ''?''}) (py_lower text)
   \<and> list_all (\<lambda>w. w \<noteq> [] \<and> list_all (\<lambda>c. \<not> py_isspace c) w) (words text)
   \<and> words ''O.K,  Ye!ah?'' = [''ok'', ''yeah'']
   \<and> words (''Don'' @ [CHR 0x27] @ ''t'') = [''don'' @ [CHR 0x27] @ ''t'']"
proof -
  let ?keep = "\<lambda>c. c \<noteq> CHR '','' \<and> c \<noteq> CHR ''.'' \<and> c \<noteq> CHR ''!'' \<and> c \<noteq> CHR ''?''"
  let ?keep' = "\<lambda>c. c \<notin> {CHR '','', CHR ''.'', CHR ''!'', CHR ''?''}"
  have k: "?keep' = ?keep" by auto
  have 1: "words text = py_split (filter ?keep' (py_strip (py_lower text)))"
    unfolding k by (simp add: words_as_filter text_lower_def)
  have "concat (words text) = filter (\<lambda>c. \<not> py_isspace c) (filter ?keep' (py_strip (py_lower text)))"
    by (simp only: 1 concat_py_split)
  also have "\<dots> = filter ?keep' (filter (\<lambda>c. \<not> py_isspace c) (py_strip (py_lower text)))"
    by (simp add: conj_commute)
  also have "\<dots> = filter ?keep' (filter (\<lambda>c. \<not> py_isspace c) (py_lower text))"
    by (simp only: filter_nonspace_strip)
  also have "\<dots> = filter (\<lambda>c. \<not> py_isspace c \<and> ?keep' c) (py_lower text)"
    by (simp add: conj_commute)
  finally have 2: "concat (words text) = filter (\<lambda>c. \<not> py_isspace c \<and> ?keep' c) (py_lower text)" .
  have 3: "list_all (\<lambda>w. w \<noteq> [] \<and> list_all (\<lambda>c. \<not> py_isspace c) w) (words text)"
    unfolding 1 list_all_iff using py_split_tokens by blast
  have 4: "words ''O.K,  Ye!ah?'' = [''ok'', ''yeah'']" by code_simp
  have 5: "words (''Don'' @ [CHR 0x27] @ ''t'') = [''don'' @ [CHR 0x27] @ ''t'']" by code_simp
  show ?thesis
    by (intro conjI) (rule 1, rule 2, rule 3, rule 4, rule 5)
qed

theorem normalizer_removes_four_marks_witness:
  "words ''Hmm...  ok?!'' = [''hmm'', ''ok'']"
proof -
  have "py_split (filter (\<lambda>c. c \<notin> {CHR '','', CHR ''.'', CHR ''!'', CHR ''?''})
          (py_strip (py_lower ''Hmm...  ok?!''))) = [''hmm'', ''ok'']"
    by code_simp
  with normalizer_removes_four_marks [of "''Hmm...  ok?!''"] show ?thesis by simp
qed

section \<open>The function on code points\<close>

lemma u_split_blank: "dropWhile cp_isspace s = [] \<Longrightarrow> u_split s = []"
  by (subst u_split.simps) (simp only: Let_def simp_thms if_True)

lemma u_split_step:
  "dropWhile cp_isspace s \<noteq> [] \<Longrightarrow>
   u_split s = takeWhile (\<lambda>c. \<not> cp_isspace c) (dropWhile cp_isspace s)
                # u_split (dropWhile (\<lambda>c. \<not> cp_isspace c) (dropWhile cp_isspace s))"
  by (subst u_split.simps) (simp only: Let_def if_False)

lemmas u_eval =
  codes_def u_is_backchannel_only_def u_lower_def u_upper_def cp_lower_def cp_upper_def
  u_strip_def cp_isspace_def COMMAND_WORDS_def BACKCHANNEL_WORDS_def u_words_def u_replace_def
  u_split_step u_split_blank case_pair_def is_capital_def


lemma case_pair_lower: "case_pair a b \<Longrightarrow> cp_lower a = cp_lower b"
  by (auto simp: case_pair_def is_capital_def cp_lower_def)

lemma case_variant_lower:
  "list_all2 case_pair s t \<Longrightarrow> u_lower s = u_lower t"
proof (induction rule: list_all2_induct)
  case Nil
  show ?case by simp
next
  case (Cons x xs y ys)
  from Cons.hyps(1) have "cp_lower x = cp_lower y" by (rule case_pair_lower)
  moreover from Cons.IH have "u_case_map cp_lower xs = u_case_map cp_lower ys"
    by (simp only: u_lower_def)
  ultimately show ?case by (simp only: u_lower_def u_case_map.simps)
qed

lemma same_lower_same_result:
  assumes "u_lower s = u_lower t" and "(s = []) = (t = [])"
  shows "u_is_backchannel_only s = u_is_backchannel_only t"
  unfolding u_is_backchannel_only_def assms ..

lemma cp_upper_ascii:
  assumes "n < 128"
  shows "\<exists>m. cp_upper n = Some [m] \<and> case_pair n m"
proof (cases "97 \<le> n \<and> n \<le> 122")
  case True
  then have "cp_upper n = Some [n - 32]" by (simp add: cp_upper_def)
  moreover from True have "case_pair n (n - 32)"
    unfolding case_pair_def is_capital_def by arith
  ultimately show ?thesis by blast
next
  case False
  with assms have "cp_upper n = Some [n]" by (auto simp: cp_upper_def)
  moreover have "case_pair n n" by (simp add: case_pair_def is_capital_def)
  ultimately show ?thesis by blast
qed


lemma ascii_upper_variant:
  "list_all (\<lambda>n. n < 128) r \<Longrightarrow> \<exists>r'. u_upper r = Some r' \<and> list_all2 case_pair r r'"
proof (induction r)
  case Nil
  show ?case by (simp add: u_upper_def)
next
  case (Cons n r)
  from Cons.prems have n: "n < 128" and r: "list_all (\<lambda>n. n < 128) r" by simp_all
  from Cons.IH [OF r] obtain r' where r': "u_upper r = Some r'" "list_all2 case_pair r r'"
    by blast
  from cp_upper_ascii [OF n] obtain m where m: "cp_upper n = Some [m]" "case_pair n m"
    by blast
  have "u_upper (n # r) = Some (m # r')"
    using m(1) r'(1) by (simp add: u_upper_def)
  moreover have "list_all2 case_pair (n # r) (m # r')"
    using m(2) r'(2) by simp
  ultimately show ?case by blast
qed

lemma case_variant_same_result:
  assumes "list_all2 case_pair x y"
  shows "u_is_backchannel_only y = u_is_backchannel_only x"
proof -
  from assms have "length x = length y" by (rule list_all2_lengthD)
  then have e: "(y = []) = (x = [])" by auto
  from assms have "u_lower y = u_lower x" by (rule case_variant_lower [symmetric])
  then show ?thesis using e by (rule same_lower_same_result)
qed

lemma of_char_below: "(of_char c :: nat) < 256"
proof -
  have "(of_char c :: nat) mod 256 = of_char c" by (rule of_char_mod_256)
  moreover have "(of_char c :: nat) mod 256 < 256" by simp
  ultimately show ?thesis by (simp only:)
qed

lemma cp_isspace_of_char: "cp_isspace (of_char c) = py_isspace c"
proof -
  let ?sp = "{CHR 0x09, CHR 0x0A, CHR 0x0B, CHR 0x0C, CHR 0x0D,
           CHR 0x1C, CHR 0x1D, CHR 0x1E, CHR 0x1F, CHR 0x20, CHR 0x85, CHR 0xA0}"
  have "py_isspace c \<longleftrightarrow> (of_char c :: nat) \<in> of_char ` ?sp"
    unfolding py_isspace_def by (simp only: inj_image_mem_iff [OF inj_of_char])
  also have "(of_char ` ?sp :: nat set) = {9, 10, 11, 12, 13, 28, 29, 30, 31, 32, 133, 160}"
    by simp
  finally have 1: "py_isspace c \<longleftrightarrow> (of_char c :: nat) \<in> {9, 10, 11, 12, 13, 28, 29, 30, 31, 32, 133, 160}" .
  have 2: "cp_isspace n \<longleftrightarrow> n \<in> {9, 10, 11, 12, 13, 28, 29, 30, 31, 32, 133, 160}" if "n < 256" for n
    using that unfolding cp_isspace_def by auto
  show ?thesis using 1 2 [OF of_char_below] by (simp only:)
qed

lemma cp_lower_of_char: "cp_lower (of_char c) = Some [of_char (char_lower c)]"
proof -
  define n :: nat where "n = of_char c"
  have n: "n < 256" unfolding n_def by (rule of_char_below)
  show ?thesis
  proof (cases "(65 \<le> n \<and> n \<le> 90) \<or> (192 \<le> n \<and> n \<le> 222 \<and> n \<noteq> 215)")
    case True
    then have "n + 32 < 256" by auto
    then have "(of_char (char_of (n + 32)) :: nat) = n + 32" by simp
    with True show ?thesis
      unfolding cp_lower_def char_lower_def Let_def n_def [symmetric] by (simp only: if_True)
  next
    case False
    with n show ?thesis
      unfolding cp_lower_def char_lower_def Let_def n_def [symmetric]
      by (simp only: if_False n_def simp_thms if_True)
  qed
qed

lemma isspace_codes: "cp_isspace \<circ> of_char = py_isspace"
  by (rule ext) (simp only: comp_apply cp_isspace_of_char)

lemma non_isspace_codes: "(\<lambda>c. \<not> cp_isspace c) \<circ> of_char = (\<lambda>c. \<not> py_isspace c)"
  by (rule ext) (simp only: comp_apply cp_isspace_of_char)

lemma inj_codes: "inj codes"
  unfolding codes_def [abs_def] using inj_of_char by (rule inj_mapI)

lemma codes_Nil_iff: "codes s = [] \<longleftrightarrow> s = []"
  by (simp add: codes_def)

lemma u_lower_codes: "u_lower (codes s) = Some (codes (py_lower s))"
proof (induction s)
  case Nil
  show ?case by (simp add: u_lower_def codes_def py_lower_def)
next
  case (Cons c s)
  from Cons.IH have "u_case_map cp_lower (map of_char s) = Some (map of_char (map char_lower s))"
    by (simp only: u_lower_def codes_def py_lower_def)
  then show ?case
    by (simp add: u_lower_def codes_def py_lower_def cp_lower_of_char)
qed

lemma dropWhile_isspace_codes:
  "dropWhile cp_isspace (map of_char u) = map of_char (dropWhile py_isspace u)"
  by (simp only: dropWhile_map isspace_codes)

lemma u_strip_codes: "u_strip (codes s) = codes (py_strip s)"
  by (simp only: u_strip_def codes_def py_strip_def py_rstrip_def py_lstrip_def
      dropWhile_isspace_codes rev_map)

lemma u_replace_codes: "u_replace (of_char p) [] (codes s) = codes (py_replace p [] s)"
  by (induction s) (simp_all add: u_replace_def py_replace_def codes_def)

lemma u_split_codes: "u_split (codes s) = map codes (py_split s)"
proof (induction s rule: py_split.induct)
  case (1 s)
  have dw: "dropWhile cp_isspace (codes s) = codes (dropWhile py_isspace s)"
    by (simp only: codes_def dropWhile_map isspace_codes)
  show ?case
  proof (cases "dropWhile py_isspace s = []")
    case True
    have "dropWhile cp_isspace (codes s) = []" unfolding dw True by (simp add: codes_def)
    then have "u_split (codes s) = []" by (rule u_split_blank)
    then show ?thesis by (simp only: py_split_blank [OF True] list.map)
  next
    case False
    let ?r = "dropWhile py_isspace s"
    from False have ne: "dropWhile cp_isspace (codes s) \<noteq> []"
      by (simp only: dw codes_Nil_iff not_False_eq_True)
    have tw: "takeWhile (\<lambda>c. \<not> cp_isspace c) (codes ?r) = codes (takeWhile (\<lambda>c. \<not> py_isspace c) ?r)"
      by (simp only: codes_def takeWhile_map non_isspace_codes)
    have dw2: "dropWhile (\<lambda>c. \<not> cp_isspace c) (codes ?r) = codes (dropWhile (\<lambda>c. \<not> py_isspace c) ?r)"
      by (simp only: codes_def dropWhile_map non_isspace_codes)
    have "u_split (codes s) =
        codes (takeWhile (\<lambda>c. \<not> py_isspace c) ?r)
        # u_split (codes (dropWhile (\<lambda>c. \<not> py_isspace c) ?r))"
      by (simp only: u_split_step [OF ne] dw tw dw2)
    also have "u_split (codes (dropWhile (\<lambda>c. \<not> py_isspace c) ?r))
        = map codes (py_split (dropWhile (\<lambda>c. \<not> py_isspace c) ?r))"
      using "1.IH" [OF refl False] .
    finally show ?thesis by (simp only: py_split_step [OF False] list.map)
  qed
qed

lemma prefix_codes: "prefix (codes a) (codes b) \<longleftrightarrow> prefix a b"
  unfolding codes_def
proof (induction a arbitrary: b)
  case Nil
  show ?case by simp
next
  case step: (Cons x a)
  show ?case
  proof (cases b)
    case Nil
    then show ?thesis by simp
  next
    case (Cons y b')
    have "prefix (map of_char (x # a)) (map of_char (y # b') :: nat list)
          \<longleftrightarrow> x = y \<and> prefix (map of_char a) (map of_char b' :: nat list)"
      by simp
    also have "\<dots> \<longleftrightarrow> x = y \<and> prefix a b'" by (simp only: step.IH)
    also have "\<dots> \<longleftrightarrow> prefix (x # a) (y # b')" by simp
    finally show ?thesis by (simp only: Cons)
  qed
qed

lemma u_in_codes: "u_in (codes a) (codes b) \<longleftrightarrow> py_in a b"
proof (induction b)
  case Nil
  show ?case by (simp add: codes_def)
next
  case (Cons c b)
  have "codes (c # b) = of_char c # codes b" by (simp add: codes_def)
  then have "u_in (codes a) (codes (c # b)) \<longleftrightarrow> prefix (codes a) (codes (c # b)) \<or> u_in (codes a) (codes b)"
    by simp
  then show ?case by (simp only: prefix_codes Cons.IH py_in.simps)
qed

lemma u_words_codes: "u_words (codes s) = map codes (py_split
     (py_replace (CHR ''?'') [] (py_replace (CHR ''!'') []
       (py_replace (CHR ''.'') [] (py_replace (CHR '','') [] s)))))"
  by (simp only: u_words_def u_replace_codes u_split_codes)

lemma all_in_codes:
  "list_all (\<lambda>word. word \<in> codes ` B) (map codes ws) \<longleftrightarrow> list_all (\<lambda>word. word \<in> B) ws"
  by (simp add: list_all_iff inj_image_mem_iff [OF inj_codes])

lemma model_agreement: "u_is_backchannel_only (codes text) = Some (is_backchannel_only text)"
proof -
  have low: "u_strip (codes (py_lower text)) = codes (text_lower text)"
    by (simp only: u_strip_codes text_lower_def)
  have w: "u_words (codes (text_lower text)) = map codes (words text)"
    by (simp only: u_words_codes words_def)
  show ?thesis
    unfolding u_is_backchannel_only_def is_backchannel_only_def
    by (simp add: codes_Nil_iff u_lower_codes low w u_in_codes all_in_codes Let_def)
qed

text \<open>
  Claim C6, as stated, has the result on a text equal to the result on any case variant
  of it, the all-uppercase form for one. The text \<open>sure\<close> written with a long s (U+017F) is
  a counterexample: its \<open>lower()\<close> is the text itself, which is no backchannel word, so the
  function returns False; its \<open>upper()\<close> is \<open>SURE\<close>, for which the function returns True.
\<close>

theorem long_s_uppercase_counterexample:
  "u_upper (0x17F # codes ''ure'') = Some (codes ''SURE'')
   \<and> u_is_backchannel_only (0x17F # codes ''ure'') = Some False
   \<and> u_is_backchannel_only (codes ''SURE'') = Some True"
proof -
  have 1: "u_upper (0x17F # codes ''ure'') = Some (codes ''SURE'')" by (simp add: u_eval)
  have 2: "u_is_backchannel_only (0x17F # codes ''ure'') = Some False" by (simp add: u_eval)
  have 3: "u_is_backchannel_only (codes ''SURE'') = Some True" by (simp add: u_eval)
  show ?thesis by (intro conjI) (rule 1, rule 2, rule 3)
qed

text \<open>
  Claim C6, amended. Two texts that differ only in the case of letters \<open>A\<close>..\<open>Z\<close> and of
  the capitals U+00C0..U+00DE get the same result, because the text is lowercased before
  any test; in particular a text of code points below U+0080 gets the result of its
  all-uppercase form. On a \<open>string\<close>, a text up to U+00FF, the function on code points
  is \<open>is_backchannel_only\<close>.
\<close>

theorem result_ignores_letter_case:
  assumes "list_all2 case_pair s t" and "list_all (\<lambda>n. n < 128) r"
  shows "u_is_backchannel_only t = u_is_backchannel_only s
       \<and> (\<exists>r'. u_upper r = Some r' \<and> u_is_backchannel_only r' = u_is_backchannel_only r)
       \<and> u_is_backchannel_only (codes text) = Some (is_backchannel_only text)"
proof (intro conjI)
  from assms(1) show "u_is_backchannel_only t = u_is_backchannel_only s"
    by (rule case_variant_same_result)
next
  from ascii_upper_variant [OF assms(2)] obtain r'
    where r': "u_upper r = Some r'" "list_all2 case_pair r r'" by blast
  from r'(2) have "u_is_backchannel_only r' = u_is_backchannel_only r"
    by (rule case_variant_same_result)
  with r'(1) show "\<exists>r'. u_upper r = Some r' \<and> u_is_backchannel_only r' = u_is_backchannel_only r"
    by blast
next
  show "u_is_backchannel_only (codes text) = Some (is_backchannel_only text)"
    by (rule model_agreement)
qed

theorem result_ignores_letter_case_witness:
  "list_all2 case_pair (codes ''Yeah, ok!'') (codes ''yEAH, Ok!'')
   \<and> list_all (\<lambda>n. n < 128) (codes ''uh-huh'')
   \<and> u_is_backchannel_only (codes ''yEAH, Ok!'') = u_is_backchannel_only (codes ''Yeah, ok!'')
   \<and> u_is_backchannel_only (codes ''Yeah, ok!'') = Some True
   \<and> u_upper (codes ''uh-huh'') = Some (codes ''UH-HUH'')
   \<and> u_is_backchannel_only (codes ''UH-HUH'') = u_is_backchannel_only (codes ''uh-huh'')"
proof -
  have a: "list_all2 case_pair (codes ''Yeah, ok!'') (codes ''yEAH, Ok!'')" by (simp add: u_eval)
  have b: "list_all (\<lambda>n. n < 128) (codes ''uh-huh'')" by (simp add: u_eval)
  have c: "u_is_backchannel_only (codes ''Yeah, ok!'') = Some True" by (simp add: u_eval)
  have d: "u_upper (codes ''uh-huh'') = Some (codes ''UH-HUH'')" by (simp add: u_eval)
  note th = result_ignores_letter_case [OF a b, of "''ok''"]
  from th have e: "u_is_backchannel_only (codes ''yEAH, Ok!'') = u_is_backchannel_only (codes ''Yeah, ok!'')"
    by (rule conjunct1)
  from th obtain r' where r': "u_upper (codes ''uh-huh'') = Some r'"
      "u_is_backchannel_only r' = u_is_backchannel_only (codes ''uh-huh'')"
    by blast
  from r'(1) have "r' = codes ''UH-HUH''" by (simp only: d option.inject)
  with r'(2) have f: "u_is_backchannel_only (codes ''UH-HUH'') = u_is_backchannel_only (codes ''uh-huh'')"
    by (simp only:)
  show ?thesis by (intro conjI) (rule a, rule b, rule e, rule c, rule d, rule f)
qed

section \<open>The call as a state transformer\<close>

lemma run_result:
  "fst (is_backchannel_only_run text m) =
     (if text = [] then False
      else if \<exists>cmd\<in>g_COMMAND_WORDS m. py_in cmd (text_lower text) then False
      else if length (words text) = 0 then False
      else list_all (\<lambda>word. word \<in> g_BACKCHANNEL_WORDS m) (words text))"
  by (simp add: is_backchannel_only_run_def Let_def)

lemma run_globals:
  "g_BACKCHANNEL_WORDS (snd (is_backchannel_only_run text m)) = g_BACKCHANNEL_WORDS m"
  "g_COMMAND_WORDS (snd (is_backchannel_only_run text m)) = g_COMMAND_WORDS m"
  by (simp_all add: is_backchannel_only_run_def Let_def)

lemma run_stderr:
  "prefix (stderr m @ [DebugCalled text]) (stderr (snd (is_backchannel_only_run text m)))"
  by (simp add: is_backchannel_only_run_def Let_def)

text \<open>
  Claim C7. The result of a call is a function of the text and of the two word sets: two
  module states with the same sets give the same result, whatever stderr holds; the call
  leaves the sets as they were and only appends to stderr, so a second call on the same
  text returns what the first returned; with the sets of the freshly loaded module the
  result is \<open>is_backchannel_only text\<close>.
\<close>

theorem result_depends_on_text_and_sets_only:
  assumes "g_BACKCHANNEL_WORDS m' = g_BACKCHANNEL_WORDS m"
    and "g_COMMAND_WORDS m' = g_COMMAND_WORDS m"
  shows "fst (is_backchannel_only_run text m') = fst (is_backchannel_only_run text m)
       \<and> fst (is_backchannel_only_run text (snd (is_backchannel_only_run text m)))
           = fst (is_backchannel_only_run text m)
       \<and> g_BACKCHANNEL_WORDS (snd (is_backchannel_only_run text m)) = g_BACKCHANNEL_WORDS m
       \<and> g_COMMAND_WORDS (snd (is_backchannel_only_run text m)) = g_COMMAND_WORDS m
       \<and> prefix (stderr m) (stderr (snd (is_backchannel_only_run text m)))
       \<and> fst (is_backchannel_only_run text (module_loaded\<lparr>stderr := old_lines\<rparr>)) = is_backchannel_only text"
proof -
  have 1: "fst (is_backchannel_only_run text m') = fst (is_backchannel_only_run text m)"
    by (simp only: run_result assms)
  have 2: "fst (is_backchannel_only_run text (snd (is_backchannel_only_run text m)))
           = fst (is_backchannel_only_run text m)"
    by (simp only: run_result run_globals)
  have 5: "prefix (stderr m) (stderr (snd (is_backchannel_only_run text m)))"
    using run_stderr [of m "text"] by (rule append_prefixD)
  have 6: "fst (is_backchannel_only_run text (module_loaded\<lparr>stderr := old_lines\<rparr>)) = is_backchannel_only text"
    by (simp add: run_result is_backchannel_only_def module_loaded_def)
  show ?thesis
    by (intro conjI) (rule 1, rule 2, rule run_globals(1), rule run_globals(2), rule 5, rule 6)
qed

theorem result_depends_on_text_and_sets_only_witness:
  "fst (is_backchannel_only_run ''yeah ok'' (module_loaded\<lparr>stderr := [DebugCalled ''stop'']\<rparr>))
     = fst (is_backchannel_only_run ''yeah ok'' module_loaded)
   \<and> fst (is_backchannel_only_run ''yeah ok'' module_loaded) = True"
proof -
  have a: "g_BACKCHANNEL_WORDS (module_loaded\<lparr>stderr := [DebugCalled ''stop'']\<rparr>)
           = g_BACKCHANNEL_WORDS module_loaded" by simp
  have b: "g_COMMAND_WORDS (module_loaded\<lparr>stderr := [DebugCalled ''stop'']\<rparr>)
           = g_COMMAND_WORDS module_loaded" by simp
  have c: "is_backchannel_only ''yeah ok''" by code_simp
  have d: "module_loaded\<lparr>stderr := []\<rparr> = module_loaded" by (simp add: module_loaded_def)
  from result_depends_on_text_and_sets_only [OF a b, of "''yeah ok''" "[]"] c d
  show ?thesis by simp
qed

text \<open>
  Claim C8, as stated, gives the empty text the verdict Empty, apart from ContainsCommand
  and Mixed. The function returns for the empty text what it returns for \<open>ok but wait\<close>
  and for \<open>sure thats great\<close>.
\<close>

theorem scenario_empty_same_result_counterexample:
  "is_backchannel_only [] = is_backchannel_only ''ok but wait''
   \<and> is_backchannel_only [] = is_backchannel_only ''sure thats great''"
  by code_simp

text \<open>
  Claim C8, amended. On the four inputs of the scenario the function returns True for
  \<open>yeah yeah ok\<close>, whose tokens are all backchannel words; False for \<open>ok but wait\<close>, which
  has the command token \<open>wait\<close>; False for the empty text, which has no tokens; and False
  for \<open>sure thats great\<close>, in which no command word occurs and whose token \<open>thats\<close> is
  in neither set.
\<close>

theorem scenario_results:
  "is_backchannel_only ''yeah yeah ok'' = True
   \<and> words ''yeah yeah ok'' = [''yeah'', ''yeah'', ''ok'']
   \<and> is_backchannel_only ''ok but wait'' = False
   \<and> ''wait'' \<in> set (words ''ok but wait'') \<and> ''wait'' \<in> COMMAND_WORDS
   \<and> is_backchannel_only [] = False
   \<and> words [] = []
   \<and> is_backchannel_only ''sure thats great'' = False
   \<and> words ''sure thats great'' = [''sure'', ''thats'', ''great'']
   \<and> \<not> (\<exists>cmd\<in>COMMAND_WORDS. py_in cmd (text_lower ''sure thats great''))
   \<and> ''sure'' \<in> BACKCHANNEL_WORDS
   \<and> ''thats'' \<notin> BACKCHANNEL_WORDS \<and> ''thats'' \<notin> COMMAND_WORDS"
proof -
  have 1: "is_backchannel_only ''yeah yeah ok'' = True" by code_simp
  have 2: "words ''yeah yeah ok'' = [''yeah'', ''yeah'', ''ok'']" by code_simp
  have 3: "is_backchannel_only ''ok but wait'' = False" by code_simp
  have 4: "''wait'' \<in> set (words ''ok but wait'')" by code_simp
  have 5: "''wait'' \<in> COMMAND_WORDS" by (simp add: COMMAND_WORDS_def)
  have 6: "is_backchannel_only [] = False" by code_simp
  have 7: "words [] = []" by (rule words_Nil)
  have 8: "is_backchannel_only ''sure thats great'' = False" by code_simp
  have 9: "words ''sure thats great'' = [''sure'', ''thats'', ''great'']" by code_simp
  have 10: "\<not> (\<exists>cmd\<in>COMMAND_WORDS. py_in cmd (text_lower ''sure thats great''))" by code_simp
  have 11: "''sure'' \<in> BACKCHANNEL_WORDS" by (simp add: BACKCHANNEL_WORDS_def)
  have 12: "''thats'' \<notin> BACKCHANNEL_WORDS" by (simp add: BACKCHANNEL_WORDS_def)
  have 13: "''thats'' \<notin> COMMAND_WORDS" by (simp add: COMMAND_WORDS_def)
  show ?thesis
    by (intro conjI) (rule 1, rule 2, rule 3, rule 4, rule 5, rule 6, rule 7, rule 8, rule 9,
        rule 10, rule 11, rule 12, rule 13)
qed

section \<open>Resuming after a false interruption\<close>

lemma stale_timer_ignored:
  "arb_state a = Interrupted \<Longrightarrow> fire_if_due cfg t inclusive a = (a, [])"
  by (simp add: fire_if_due_def split: option.split)

lemma revised_step:
  "arb_state a = Interrupted \<Longrightarrow>
   arbiter_step cfg t0 a revisedToNonActionable =
     (a\<lparr>arb_state := PendingResume,
        timer := Some \<lparr>deadline = t0 + resumeTimeout cfg, generation = Suc (last_generation a)\<rparr>,
        last_generation := Suc (last_generation a)\<rparr>, [])"
  by simp

lemma pending_timer_fires:
  assumes "arb_state b = PendingResume" and "timer b = Some tm" and "generation tm = last_generation b"
  shows "fire_if_due cfg horizon True b =
     (if deadline tm \<le> horizon then (b\<lparr>arb_state := AgentSpeaking, timer := None\<rparr>, [resume])
      else (b, []))"
  using assms by (auto simp: fire_if_due_def)

lemma revised_run:
  assumes "arb_state a = Interrupted"
  shows "arbiter_run cfg a [(t0, revisedToNonActionable)] horizon =
     (if t0 + resumeTimeout cfg \<le> horizon
      then (a\<lparr>arb_state := AgentSpeaking, timer := None,
               last_generation := Suc (last_generation a)\<rparr>, [resume])
      else (a\<lparr>arb_state := PendingResume,
              timer := Some \<lparr>deadline = t0 + resumeTimeout cfg, generation = Suc (last_generation a)\<rparr>,
              last_generation := Suc (last_generation a)\<rparr>, []))"
proof -
  define b where "b = a\<lparr>arb_state := PendingResume,
        timer := Some \<lparr>deadline = t0 + resumeTimeout cfg, generation = Suc (last_generation a)\<rparr>,
        last_generation := Suc (last_generation a)\<rparr>"
  have f1: "fire_if_due cfg t0 False a = (a, [])"
    using assms by (rule stale_timer_ignored)
  have st: "arbiter_step cfg t0 a revisedToNonActionable = (b, [])"
    unfolding b_def using assms by (rule revised_step)
  have f2: "fire_if_due cfg horizon True b =
     (if t0 + resumeTimeout cfg \<le> horizon then (b\<lparr>arb_state := AgentSpeaking, timer := None\<rparr>, [resume])
      else (b, []))"
    using pending_timer_fires [of b "\<lparr>deadline = t0 + resumeTimeout cfg, generation = Suc (last_generation a)\<rparr>" cfg horizon]
    by (simp add: b_def)
  have "arbiter_run cfg a [(t0, revisedToNonActionable)] horizon =
     (if t0 + resumeTimeout cfg \<le> horizon then (b\<lparr>arb_state := AgentSpeaking, timer := None\<rparr>, [resume])
      else (b, []))"
    by (simp only: arbiter_run.simps f1 st f2 Let_def prod.case append_Nil simp_thms split: if_split)
  then show ?thesis by (simp add: b_def)
qed

text \<open>
  Claim C9. From \<open>Interrupted\<close>, the event \<open>revisedToNonActionable\<close> at instant \<open>t0\<close> moves
  the arbiter to \<open>PendingResume\<close> and issues no command. With no further event, the arbiter
  observed until an instant before \<open>t0 + resumeTimeout\<close> is still in \<open>PendingResume\<close> and
  has issued nothing; observed until that instant or any later one it is in
  \<open>AgentSpeaking\<close> and has issued \<open>resume\<close> exactly once. The timeout the example session
  is created with is 1.
\<close>

theorem false_interruption_resumes_once:
  assumes "arb_state a = Interrupted"
    and "early < t0 + resumeTimeout cfg"
    and "t0 + resumeTimeout cfg \<le> late"
  shows "arb_state (fst (arbiter_step cfg t0 a revisedToNonActionable)) = PendingResume
       \<and> snd (arbiter_step cfg t0 a revisedToNonActionable) = []
       \<and> arb_state (fst (arbiter_run cfg a [(t0, revisedToNonActionable)] early)) = PendingResume
       \<and> snd (arbiter_run cfg a [(t0, revisedToNonActionable)] early) = []
       \<and> arb_state (fst (arbiter_run cfg a [(t0, revisedToNonActionable)] late)) = AgentSpeaking
       \<and> snd (arbiter_run cfg a [(t0, revisedToNonActionable)] late) = [resume]
       \<and> resumeTimeout (session_config entrypoint_session) = 1"
proof -
  have e: "\<not> t0 + resumeTimeout cfg \<le> early" using assms(2) by simp
  have 1: "arb_state (fst (arbiter_step cfg t0 a revisedToNonActionable)) = PendingResume"
    and 2: "snd (arbiter_step cfg t0 a revisedToNonActionable) = []"
    using assms(1) by simp_all
  have 3: "arb_state (fst (arbiter_run cfg a [(t0, revisedToNonActionable)] early)) = PendingResume"
    and 4: "snd (arbiter_run cfg a [(t0, revisedToNonActionable)] early) = []"
    by (simp_all only: revised_run [OF assms(1)] e if_False) simp_all
  have 5: "arb_state (fst (arbiter_run cfg a [(t0, revisedToNonActionable)] late)) = AgentSpeaking"
    and 6: "snd (arbiter_run cfg a [(t0, revisedToNonActionable)] late) = [resume]"
    by (simp_all only: revised_run [OF assms(1)] assms(3) if_True) simp_all
  have 7: "resumeTimeout (session_config entrypoint_session) = 1"
    by (simp add: session_config_def entrypoint_session_def)
  show ?thesis
    by (intro conjI) (rule 1, rule 2, rule 3, rule 4, rule 5, rule 6, rule 7)
qed

theorem false_interruption_resumes_once_witness:
  "arbiter_run (session_config entrypoint_session)
      \<lparr>arb_state = Interrupted, timer = None, last_generation = 0\<rparr>
      [(5, revisedToNonActionable)] 6
    = (\<lparr>arb_state = AgentSpeaking, timer = None, last_generation = 1\<rparr>, [resume])
   \<and> arb_state (fst (arbiter_run (session_config entrypoint_session)
        \<lparr>arb_state = Interrupted, timer = None, last_generation = 0\<rparr>
        [(5, revisedToNonActionable)] (11 / 2))) = PendingResume"
proof -
  let ?a = "\<lparr>arb_state = Interrupted, timer = None, last_generation = 0\<rparr>"
  let ?cfg = "session_config entrypoint_session"
  have t: "resumeTimeout ?cfg = 1" by (simp add: session_config_def entrypoint_session_def)
  have a: "arb_state ?a = Interrupted" by simp
  have b: "(11 / 2 :: rat) < 5 + resumeTimeout ?cfg" by (simp add: t)
  have c: "5 + resumeTimeout ?cfg \<le> (6 :: rat)" by (simp add: t)
  have d: "arbiter_run ?cfg ?a [(5, revisedToNonActionable)] 6
           = (\<lparr>arb_state = AgentSpeaking, timer = None, last_generation = 1\<rparr>, [resume])"
    by (simp add: fire_if_due_def t)
  from false_interruption_resumes_once [OF a b c] d show ?thesis by simp
qed

end
